theory Spec2Isabelle
  imports Complex_Main "HOL-Library.AList" "HOL-Library.List_Lexorder" "HOL-Library.Multiset"
    "HOL-Library.Word"
begin

section \<open>Tag extraction of jiebago's analyse package\<close>

text \<open>
  A shallow embedding of \<^verbatim>\<open>analyse/tag_extracker.go\<close>: the weighted segments and
  their ordering, \<^verbatim>\<open>ExtractTags\<close>, \<^verbatim>\<open>isDigit\<close> and \<^verbatim>\<open>CNExtractTags\<close>.

  Conventions of the embedding.
  \<^item> A Go string holding UTF-8 text is the list of its code points (\<open>rune\<close>s). On such
    strings \<^verbatim>\<open>utf8.RuneCountInString\<close> is the length, \<^verbatim>\<open>for _, r := range w\<close> visits the
    list, equality of map keys is equality of lists, and Go's bytewise \<^verbatim>\<open><\<close> is the
    lexicographic order of the code points (UTF-8 keeps that order).
  \<^item> \<^verbatim>\<open>float64\<close> is idealised as \<open>real\<close>: no rounding, no overflow, no NaN. The one
    operation of the file that could leave the finite numbers from finite operands is
    the division \<^verbatim>\<open>v / total\<close>; its zero-divisor case is an explicit outcome of the
    model instead of HOL's \<open>x / 0 = 0\<close>.
  \<^item> The segmenter, the IDF table and the stop-word table live in other files of the
    package. They enter as the methods the extractor calls on them: \<^verbatim>\<open>Cut\<close>,
    \<^verbatim>\<open>Frequency\<close> with the field \<^verbatim>\<open>median\<close>, and \<^verbatim>\<open>IsStopWord\<close>. The channel that
    \<^verbatim>\<open>Cut\<close> returns is read until it is closed, so it is the list of its tokens.
  \<^item> \<^verbatim>\<open>unicode.IsNumber\<close> (a table of Go's standard library) is a parameter.
  \<^item> A Go map that is ranged over is an association list with distinct keys, in the
    order of first insertion. Go leaves the order of \<^verbatim>\<open>range\<close> open; the collection is
    sorted before it is returned, and \<open>range_order_irrelevant\<close> below shows that
    the total and the sorted collection do not depend on that order.
\<close>

subsection \<open>Strings\<close>

type_synonym rune = nat
type_synonym gostring = "rune list"

text \<open>\<^verbatim>\<open>unicode.IsSpace\<close>: the Latin-1 spaces and Unicode's White_Space property.\<close>

definition IsSpace :: "rune \<Rightarrow> bool" where
  "IsSpace r \<longleftrightarrow>
     (9 \<le> r \<and> r \<le> 13) \<or> r = 32 \<or> r = 133 \<or> r = 160 \<or> r = 5760
     \<or> (8192 \<le> r \<and> r \<le> 8202) \<or> r = 8232 \<or> r = 8233 \<or> r = 8239 \<or> r = 8287
     \<or> r = 12288"

text \<open>\<^verbatim>\<open>strings.TrimSpace\<close>: all leading and trailing white space removed.\<close>

definition TrimSpace :: "gostring \<Rightarrow> gostring" where
  "TrimSpace s = rev (dropWhile IsSpace (rev (dropWhile IsSpace s)))"

definition RuneCountInString :: "gostring \<Rightarrow> int" where
  "RuneCountInString s = int (length s)"

subsection \<open>Segments and their order\<close>

record Segment =
  text' :: gostring
  weight :: real

type_synonym Segments = "Segment list"

definition Len :: "Segments \<Rightarrow> int" where
  "Len ss = int (length ss)"

text \<open>
  \<^verbatim>\<open>Less(i, j)\<close> compares the weights and, when they are equal, the texts. An index
  out of range panics in Go: the result \<open>None\<close>.
\<close>

definition Less :: "Segments \<Rightarrow> nat \<Rightarrow> nat \<Rightarrow> bool option" where
  "Less ss i j =
     (if i < length ss \<and> j < length ss then
        Some (if weight (ss ! i) = weight (ss ! j) then text' (ss ! i) < text' (ss ! j)
              else weight (ss ! i) < weight (ss ! j))
      else None)"

definition Swap :: "Segments \<Rightarrow> nat \<Rightarrow> nat \<Rightarrow> Segments option" where
  "Swap ss i j =
     (if i < length ss \<and> j < length ss then Some (ss[i := ss ! j, j := ss ! i]) else None)"

text \<open>
  \<^verbatim>\<open>sort.Reverse\<close> wraps a collection so that its \<^verbatim>\<open>Less(i, j)\<close> is the
  collection's \<^verbatim>\<open>Less(j, i)\<close>.
\<close>

definition Reverse :: "('a list \<Rightarrow> nat \<Rightarrow> nat \<Rightarrow> bool option) \<Rightarrow> 'a list \<Rightarrow> nat \<Rightarrow> nat \<Rightarrow> bool option" where
  "Reverse data ss i j = data ss j i"

text \<open>
  \<^verbatim>\<open>sort.Sort\<close> belongs to Go's standard library: it permutes the collection so that
  no later element is \<^verbatim>\<open>Less\<close> than an earlier one, and it is not stable. The model is
  an insertion sort that asks the collection's \<^verbatim>\<open>Less\<close> about two elements at a time.
\<close>

definition before :: "('a list \<Rightarrow> nat \<Rightarrow> nat \<Rightarrow> bool option) \<Rightarrow> 'a \<Rightarrow> 'a \<Rightarrow> bool" where
  "before data a b \<longleftrightarrow> data [a, b] 0 1 = Some True"

fun insert_sorted :: "('a list \<Rightarrow> nat \<Rightarrow> nat \<Rightarrow> bool option) \<Rightarrow> 'a \<Rightarrow> 'a list \<Rightarrow> 'a list" where
  "insert_sorted data x [] = [x]"
| "insert_sorted data x (y # ys) =
     (if before data x y then x # y # ys else y # insert_sorted data x ys)"

fun Sort :: "('a list \<Rightarrow> nat \<Rightarrow> nat \<Rightarrow> bool option) \<Rightarrow> 'a list \<Rightarrow> 'a list" where
  "Sort data [] = []"
| "Sort data (x # xs) = insert_sorted data x (Sort data xs)"

subsection \<open>The extractor and its collaborators\<close>

record Segmenter =
  Cut :: "gostring \<Rightarrow> bool \<Rightarrow> gostring list"

record Idf =
  Frequency :: "gostring \<Rightarrow> real \<times> bool"
  median :: real

record StopWord =
  IsStopWord :: "gostring \<Rightarrow> bool"

record TagExtracter =
  seg :: Segmenter
  idf :: Idf
  stopWord :: StopWord

datatype error = DivisionByZero

definition fdiv :: "real \<Rightarrow> real \<Rightarrow> error + real" where
  "fdiv x y = (if y = 0 then Inl DivisionByZero else Inr (x / y))"

subsection \<open>ExtractTags\<close>

type_synonym freqMap = "(gostring \<times> real) list"

text \<open>The first loop: trim, drop short tokens and stop words, count the rest.\<close>

fun ExtractTags_count :: "StopWord \<Rightarrow> gostring list \<Rightarrow> freqMap \<Rightarrow> freqMap" where
  "ExtractTags_count sw [] freqMap = freqMap"
| "ExtractTags_count sw (w0 # rest) freqMap =
     (let w = TrimSpace w0 in
      if RuneCountInString w < 2 then ExtractTags_count sw rest freqMap
      else if IsStopWord sw w then ExtractTags_count sw rest freqMap
      else (case map_of freqMap w of
              Some f \<Rightarrow> ExtractTags_count sw rest (AList.update w (f + 1) freqMap)
            | None \<Rightarrow> ExtractTags_count sw rest (AList.update w 1 freqMap)))"

text \<open>The second loop: \<^verbatim>\<open>total += freq\<close>.\<close>

fun ExtractTags_total :: "freqMap \<Rightarrow> real \<Rightarrow> real" where
  "ExtractTags_total [] total' = total'"
| "ExtractTags_total ((k, freq) # rest) total' = ExtractTags_total rest (total' + freq)"

text \<open>The third loop: \<^verbatim>\<open>freqMap[k] = v / total\<close> for every key.\<close>

fun ExtractTags_normalize :: "real \<Rightarrow> freqMap \<Rightarrow> error + freqMap" where
  "ExtractTags_normalize total' [] = Inr []"
| "ExtractTags_normalize total' ((k, v) # rest) =
     (case fdiv v total' of
        Inl e \<Rightarrow> Inl e
      | Inr q \<Rightarrow>
          (case ExtractTags_normalize total' rest of
             Inl e \<Rightarrow> Inl e
           | Inr rest' \<Rightarrow> Inr ((k, q) # rest')))"

text \<open>The fourth loop: one segment per key, weighted by the IDF value or the median.\<close>

fun ExtractTags_weigh :: "Idf \<Rightarrow> freqMap \<Rightarrow> Segments" where
  "ExtractTags_weigh i [] = []"
| "ExtractTags_weigh i ((k, v) # rest) =
     (case Frequency i k of
        (freq, True) \<Rightarrow> \<lparr>text' = k, weight = freq * v\<rparr> # ExtractTags_weigh i rest
      | (freq, False) \<Rightarrow> \<lparr>text' = k, weight = median i * v\<rparr> # ExtractTags_weigh i rest)"

text \<open>\<^verbatim>\<open>if topK >= 0 && len(ws) > topK { tags = ws[:topK] } else { tags = ws }\<close>\<close>

definition topK_of :: "int \<Rightarrow> Segments \<Rightarrow> Segments" where
  "topK_of topK ws = (if topK \<ge> 0 \<and> Len ws > topK then take (nat topK) ws else ws)"

definition ExtractTags :: "TagExtracter \<Rightarrow> gostring \<Rightarrow> int \<Rightarrow> error + Segments" where
  "ExtractTags t sentence topK =
     (let freqMap = ExtractTags_count (stopWord t) (Cut (seg t) sentence True) [];
          total' = ExtractTags_total freqMap 0
      in case ExtractTags_normalize total' freqMap of
           Inl e \<Rightarrow> Inl e
         | Inr freqMap' \<Rightarrow>
             Inr (topK_of topK (Sort (Reverse Less) (ExtractTags_weigh (idf t) freqMap'))))"

subsection \<open>isDigit\<close>

text \<open>
  \<^verbatim>\<open>isDigit\<close> is false for the empty string and otherwise runs over the runes until one
  is not a number. Its receiver is not used; \<open>IsNumber\<close> stands for \<^verbatim>\<open>unicode.IsNumber\<close>.
\<close>

fun isDigit_loop :: "(rune \<Rightarrow> bool) \<Rightarrow> gostring \<Rightarrow> bool" where
  "isDigit_loop IsNumber [] = True"
| "isDigit_loop IsNumber (r # rs) = (if \<not> IsNumber r then False else isDigit_loop IsNumber rs)"

definition isDigit :: "(rune \<Rightarrow> bool) \<Rightarrow> gostring \<Rightarrow> bool" where
  "isDigit IsNumber w = (if w = [] then False else isDigit_loop IsNumber w)"

subsection \<open>CNExtractTags\<close>

text \<open>
  The first loop carries \<^verbatim>\<open>numCount\<close> (a Go \<^verbatim>\<open>int\<close>: 64 bits, two's complement,
  \<^verbatim>\<open>numCount++\<close> wraps), the slice \<^verbatim>\<open>words\<close> and the map. Both branches of the map
  update store \<open>1.0\<close>, as in the source.
\<close>

fun CNExtractTags_scan ::
  "(rune \<Rightarrow> bool) \<Rightarrow> StopWord \<Rightarrow> gostring list \<Rightarrow> 64 word \<times> gostring list \<times> freqMap
     \<Rightarrow> 64 word \<times> gostring list \<times> freqMap" where
  "CNExtractTags_scan IsNumber sw [] state = state"
| "CNExtractTags_scan IsNumber sw (w0 # rest) (numCount, words, freqMap) =
     (let w = TrimSpace w0 in
      if RuneCountInString w < 2 then CNExtractTags_scan IsNumber sw rest (numCount, words, freqMap)
      else if IsStopWord sw w then CNExtractTags_scan IsNumber sw rest (numCount, words, freqMap)
      else
        let numCount' = (if isDigit IsNumber w then numCount + 1 else numCount) in
        if isDigit IsNumber w \<and> 0 <s numCount' then
          CNExtractTags_scan IsNumber sw rest (numCount', words, freqMap)
        else
          CNExtractTags_scan IsNumber sw rest
            (numCount', words @ [w],
             (case map_of freqMap w of
                Some f \<Rightarrow> AList.update w 1 freqMap
              | None \<Rightarrow> AList.update w 1 freqMap)))"

text \<open>The second loop: a key the IDF table does not know is skipped.\<close>

fun CNExtractTags_weigh :: "Idf \<Rightarrow> freqMap \<Rightarrow> Segments" where
  "CNExtractTags_weigh i [] = []"
| "CNExtractTags_weigh i ((k, v) # rest) =
     (case Frequency i k of
        (freq, True) \<Rightarrow> \<lparr>text' = k, weight = freq * v\<rparr> # CNExtractTags_weigh i rest
      | (freq, False) \<Rightarrow> CNExtractTags_weigh i rest)"

definition CNExtractTags ::
  "(rune \<Rightarrow> bool) \<Rightarrow> TagExtracter \<Rightarrow> gostring \<Rightarrow> int \<Rightarrow> Segments \<times> gostring list" where
  "CNExtractTags IsNumber t sentence topK =
     (case CNExtractTags_scan IsNumber (stopWord t) (Cut (seg t) sentence True) (0, [], []) of
        (numCount, words, freqMap) \<Rightarrow>
          (topK_of topK (Sort (Reverse Less) (CNExtractTags_weigh (idf t) freqMap)), words))"

subsection \<open>Loading\<close>

text \<open>
  \<^verbatim>\<open>LoadDictionary\<close> and \<^verbatim>\<open>LoadStopWords\<close> assign fresh tables to the extractor and
  return the error of the loader they call. \<^verbatim>\<open>NewStopWord\<close> and the two loaders are
  defined in other files of the package and read the file system: they are parameters,
  and the type \<open>'e\<close> stands for Go's \<^verbatim>\<open>error\<close>.
\<close>

definition LoadDictionary ::
  "StopWord \<Rightarrow> (gostring \<Rightarrow> 'e option \<times> Segmenter) \<Rightarrow> TagExtracter \<Rightarrow> gostring
     \<Rightarrow> 'e option \<times> TagExtracter" where
  "LoadDictionary NewStopWord seg_LoadDictionary t fileName =
     (case seg_LoadDictionary fileName of
        (err, seg') \<Rightarrow> (err, t\<lparr>stopWord := NewStopWord, seg := seg'\<rparr>))"

definition LoadStopWords ::
  "StopWord \<Rightarrow> (StopWord \<Rightarrow> gostring \<Rightarrow> 'e option \<times> StopWord) \<Rightarrow> TagExtracter \<Rightarrow> gostring
     \<Rightarrow> 'e option \<times> TagExtracter" where
  "LoadStopWords NewStopWord loadDictionary t fileName =
     (case loadDictionary NewStopWord fileName of
        (err, stopWord') \<Rightarrow> (err, t\<lparr>stopWord := stopWord'\<rparr>))"

subsection \<open>Auxiliary notions for the proofs\<close>

text \<open>
  What the two extractors keep of the token stream: the trimmed tokens that are at least
  two runes long and that the stop-word table does not report.
\<close>

definition survivors :: "StopWord \<Rightarrow> gostring list \<Rightarrow> gostring list" where
  "survivors sw tokens =
     filter (\<lambda>w. \<not> RuneCountInString w < 2 \<and> \<not> IsStopWord sw w) (map TrimSpace tokens)"

text \<open>One step of the counting loop of \<^verbatim>\<open>ExtractTags\<close> on a surviving token.\<close>

definition counted :: "gostring \<Rightarrow> freqMap \<Rightarrow> freqMap" where
  "counted w freqMap =
     (case map_of freqMap w of
        Some f \<Rightarrow> AList.update w (f + 1) freqMap
      | None \<Rightarrow> AList.update w 1 freqMap)"

text \<open>
  The order \<^verbatim>\<open>sort.Sort(sort.Reverse(ws))\<close> establishes between an earlier and a later
  element: the later one is not \<^verbatim>\<open>Less\<close>-greater than the earlier one.
\<close>

definition seg_ge :: "Segment \<Rightarrow> Segment \<Rightarrow> bool" where
  "seg_ge a b \<longleftrightarrow> \<not> before (Reverse Less) b a"

text \<open>What \<^verbatim>\<open>CNExtractTags\<close> keeps: the survivors that are not numeric.\<close>

definition kept :: "(rune \<Rightarrow> bool) \<Rightarrow> StopWord \<Rightarrow> gostring list \<Rightarrow> gostring list" where
  "kept IsNumber sw tokens = filter (\<lambda>w. \<not> isDigit IsNumber w) (survivors sw tokens)"

text \<open>One step of the map update of \<^verbatim>\<open>CNExtractTags\<close>: the value is always \<open>1.0\<close>.\<close>

definition present :: "gostring \<Rightarrow> freqMap \<Rightarrow> freqMap" where
  "present w freqMap = AList.update w 1 freqMap"

text \<open>
  Two readings of "sorted". \<open>sorted_as_specified\<close> follows the words of the
  specification: between neighbours the weight does not increase, and neighbours of equal
  weight stand in ascending order of their text. \<open>sorted_as_coded\<close> is what the code
  establishes: neighbours of equal weight stand in descending order of their text.
\<close>

definition sorted_as_specified :: "Segments \<Rightarrow> bool" where
  "sorted_as_specified ss \<longleftrightarrow>
     successively (\<lambda>a b. weight b \<le> weight a \<and> (weight a = weight b \<longrightarrow> text' a \<le> text' b)) ss"

definition sorted_as_coded :: "Segments \<Rightarrow> bool" where
  "sorted_as_coded ss \<longleftrightarrow>
     successively (\<lambda>a b. weight b \<le> weight a \<and> (weight a = weight b \<longrightarrow> text' b < text' a)) ss"

subsection \<open>Sample data\<close>

text \<open>
  A small extractor on which the theorems below are instantiated. Its segmenter cuts a
  sentence at blanks and also emits each blank as a token; its IDF table knows three
  words; its stop-word table holds the word \<open>of\<close>. \<open>ascii\<close> reads an ASCII literal
  as a Go string, and \<open>ascii_digit\<close> is \<^verbatim>\<open>unicode.IsNumber\<close> restricted to ASCII.
\<close>

definition ascii :: "string \<Rightarrow> gostring" where
  "ascii s = map of_char s"

definition ascii_digit :: "rune \<Rightarrow> bool" where
  "ascii_digit r \<longleftrightarrow> 48 \<le> r \<and> r \<le> 57"

fun blank_split :: "gostring \<Rightarrow> gostring \<Rightarrow> gostring list" where
  "blank_split cur [] = (if cur = [] then [] else [cur])"
| "blank_split cur (r # rs) =
     (if r = 32 then (if cur = [] then [] else [cur]) @ [32] # blank_split [] rs
      else blank_split (cur @ [r]) rs)"

definition demo :: TagExtracter where
  "demo =
     \<lparr>seg = \<lparr>Cut = (\<lambda>sentence hmm. blank_split [] sentence)\<rparr>,
      idf = \<lparr>Frequency = (\<lambda>w. if w = ascii ''quick'' then (2, True)
                               else if w = ascii ''brown'' then (3 / 2, True)
                               else if w = ascii ''lazy'' then (3 / 2, True)
                               else (0, False)),
             median = 1\<rparr>,
      stopWord = \<lparr>IsStopWord = (\<lambda>w. w = ascii ''of'')\<rparr>\<rparr>"

section \<open>Properties of the model\<close>

subsection \<open>Sorting\<close>


lemma before_Reverse_Less:
  "before (Reverse Less) a b \<longleftrightarrow>
     (if weight b = weight a then text' b < text' a else weight b < weight a)"
  by (simp add: before_def Reverse_def Less_def)

lemma seg_ge_iff:
  "seg_ge a b \<longleftrightarrow> weight b < weight a \<or> (weight a = weight b \<and> text' b \<le> text' a)"
  by (auto simp: seg_ge_def before_Reverse_Less)

lemma seg_ge_trans: "seg_ge a b \<Longrightarrow> seg_ge b c \<Longrightarrow> seg_ge a c"
  by (auto simp: seg_ge_iff)

lemma seg_ge_total: "seg_ge a b \<or> seg_ge b a"
  by (auto simp: seg_ge_iff)

lemma seg_ge_antisym: "seg_ge a b \<Longrightarrow> seg_ge b a \<Longrightarrow> a = (b :: Segment)"
  by (cases a; cases b) (auto simp: seg_ge_iff)

lemma mset_insert_sorted: "mset (insert_sorted d x ys) = add_mset x (mset ys)"
  by (induction ys) auto

lemma mset_Sort: "mset (Sort d xs) = mset xs"
  by (induction xs) (auto simp: mset_insert_sorted)

lemma set_insert_sorted: "set (insert_sorted d x ys) = insert x (set ys)"
  by (induction ys) auto

lemma sorted_insert_sorted:
  "sorted_wrt seg_ge ys \<Longrightarrow> sorted_wrt seg_ge (insert_sorted (Reverse Less) x ys)"
proof (induction ys)
  case Nil
  then show ?case by simp
next
  case (Cons y ys)
  show ?case
  proof (cases "before (Reverse Less) x y")
    case True
    then have xy: "seg_ge x y" using seg_ge_total[of x y] by (auto simp: seg_ge_def)
    have "\<forall>z\<in>set ys. seg_ge x z"
      using Cons.prems xy by (auto intro: seg_ge_trans)
    with True xy Cons.prems show ?thesis by simp
  next
    case False
    then have "seg_ge y x" by (simp add: seg_ge_def)
    with False Cons show ?thesis by (auto simp: set_insert_sorted)
  qed
qed

lemma sorted_Sort: "sorted_wrt seg_ge (Sort (Reverse Less) xs)"
  by (induction xs) (auto intro: sorted_insert_sorted)

lemma sorted_wrt_unique:
  "sorted_wrt seg_ge xs \<Longrightarrow> sorted_wrt seg_ge ys \<Longrightarrow> mset xs = mset ys \<Longrightarrow> xs = ys"
proof (induction xs arbitrary: ys)
  case Nil
  then show ?case by simp
next
  case (Cons x xs)
  then obtain y ys' where ys: "ys = y # ys'" by (cases ys) auto
  have "x = y"
  proof (rule ccontr)
    assume ne: "x \<noteq> y"
    from Cons.prems(3) ys have "x \<in> set ys" "y \<in> set (x # xs)"
      by (metis list.set_intros(1) set_mset_mset)+
    with ne ys have "x \<in> set ys'" "y \<in> set xs" by auto
    with Cons.prems(1,2) ys have "seg_ge y x" "seg_ge x y" by auto
    with ne show False using seg_ge_antisym by blast
  qed
  with Cons ys show ?case by auto
qed

lemma Sort_Reverse_Less_unique:
  "mset ys = mset xs \<Longrightarrow> sorted_wrt (\<lambda>a b. \<not> before (Reverse Less) b a) ys \<Longrightarrow> Sort (Reverse Less) xs = ys"
  using sorted_wrt_unique[of "Sort (Reverse Less) xs" ys] sorted_Sort[of xs]
  by (simp add: mset_Sort seg_ge_def[abs_def])


subsection \<open>The counting loop\<close>


lemma survivors_Nil: "survivors sw [] = []"
  by (simp add: survivors_def)

lemma survivors_Cons:
  "survivors sw (w0 # rest) =
     (if RuneCountInString (TrimSpace w0) < 2 \<or> IsStopWord sw (TrimSpace w0) then survivors sw rest
      else TrimSpace w0 # survivors sw rest)"
  by (simp add: survivors_def)

lemma ExtractTags_count_fold:
  "ExtractTags_count sw tokens fm = fold counted (survivors sw tokens) fm"
  by (induction tokens arbitrary: fm)
     (simp_all add: survivors_Nil survivors_Cons counted_def Let_def split: option.split)

lemma keys_counted: "fst ` set (counted w fm) = insert w (fst ` set fm)"
  by (simp add: counted_def dom_update split: option.split)

lemma distinct_counted: "distinct (map fst fm) \<Longrightarrow> distinct (map fst (counted w fm))"
  by (simp add: counted_def distinct_update split: option.split)

lemma keys_fold_counted: "fst ` set (fold counted S fm) = set S \<union> fst ` set fm"
  by (induction S arbitrary: fm) (auto simp: keys_counted)

lemma distinct_fold_counted:
  "distinct (map fst fm) \<Longrightarrow> distinct (map fst (fold counted S fm))"
  by (induction S arbitrary: fm) (auto simp: distinct_counted)

lemma sum_update:
  "sum_list (map snd (AList.update k v al)) =
     sum_list (map snd al) - (case map_of al k of None \<Rightarrow> 0 | Some f \<Rightarrow> f) + (v::real)"
  by (induction al) auto

lemma sum_counted: "sum_list (map snd (counted w fm)) = sum_list (map snd fm) + 1"
  by (simp add: counted_def sum_update split: option.split)

lemma sum_fold_counted:
  "sum_list (map snd (fold counted S fm)) = sum_list (map snd fm) + real (length S)"
  by (induction S arbitrary: fm) (auto simp: sum_counted)

lemma ExtractTags_total_sum: "ExtractTags_total fm t = t + sum_list (map snd fm)"
  by (induction fm t rule: ExtractTags_total.induct) auto

lemma map_of_counted:
  "map_of (counted w fm) k =
     (if k = w then Some ((case map_of fm w of None \<Rightarrow> 0 | Some f \<Rightarrow> f) + 1) else map_of fm k)"
  by (simp add: counted_def update_conv' split: option.split)

lemma map_of_fold_counted:
  "map_of (fold counted S fm) k =
     (if k \<in> set S then Some ((case map_of fm k of None \<Rightarrow> 0 | Some f \<Rightarrow> f) + real (count_list S k))
      else map_of fm k)"
  by (induction S arbitrary: fm) (auto simp: map_of_counted split: option.split)

lemma ExtractTags_normalize_map:
  "t \<noteq> 0 \<Longrightarrow> ExtractTags_normalize t fm = Inr (map (\<lambda>(k, v). (k, v / t)) fm)"
  by (induction fm) (auto simp: fdiv_def)

lemma text_ExtractTags_weigh: "map text' (ExtractTags_weigh i fm) = map fst fm"
  by (induction fm) (auto split: prod.split bool.split)


subsection \<open>Trimming and the closed form of ExtractTags\<close>


lemma TrimSpace_idem: "TrimSpace (TrimSpace s) = TrimSpace s"
proof -
  define a where "a = dropWhile IsSpace s"
  define b where "b = rev (dropWhile IsSpace (rev a))"
  have hd_a: "a \<noteq> [] \<Longrightarrow> \<not> IsSpace (hd a)"
    unfolding a_def by (simp add: hd_dropWhile)
  have "\<exists>c. a = b @ c"
    unfolding b_def
    by (metis append_Nil2 rev_append rev_rev_ident takeWhile_dropWhile_id)
  then obtain c where c: "a = b @ c" by blast
  have "b \<noteq> [] \<Longrightarrow> \<not> IsSpace (hd b)"
    using hd_a c by (cases b) auto
  then have 1: "dropWhile IsSpace b = b"
    by (cases b) auto
  have 2: "dropWhile IsSpace (rev b) = rev b"
    unfolding b_def by (simp add: dropWhile_idem)
  show ?thesis
    using 1 2 unfolding TrimSpace_def a_def[symmetric] b_def[symmetric] by simp
qed

lemma ExtractTags_eq:
  "ExtractTags t sentence topK =
     Inr (topK_of topK (Sort (Reverse Less) (ExtractTags_weigh (idf t)
       (map (\<lambda>(k, v). (k, v / real (length (survivors (stopWord t) (Cut (seg t) sentence True)))))
          (fold counted (survivors (stopWord t) (Cut (seg t) sentence True)) [])))))"
proof (cases "survivors (stopWord t) (Cut (seg t) sentence True) = []")
  case True
  then show ?thesis
    by (simp add: ExtractTags_def ExtractTags_count_fold)
next
  case False
  then have "real (length (survivors (stopWord t) (Cut (seg t) sentence True))) \<noteq> 0" by simp
  then show ?thesis
    by (simp add: ExtractTags_def ExtractTags_count_fold ExtractTags_total_sum sum_fold_counted
        ExtractTags_normalize_map)
qed

lemma length_topK_of:
  "length (topK_of topK ws) = (if 0 \<le> topK \<and> int (length ws) > topK then nat topK else length ws)"
  by (auto simp: topK_of_def Len_def)

lemma set_topK_of: "set (topK_of topK ws) \<subseteq> set ws"
  by (auto simp: topK_of_def dest: in_set_takeD)

lemma length_Sort: "length (Sort d xs) = length xs"
  by (metis mset_Sort size_mset)

lemma set_Sort: "set (Sort d xs) = set xs"
  by (metis mset_Sort set_mset_mset)

subsection \<open>The counter of numeric tokens\<close>

lemma sint_small: "unat (w::64 word) < 2^63 \<Longrightarrow> sint w = int (unat w)"
proof -
  assume a: "unat w < 2^63"
  then have "int (unat w) < int (2^63)" by (simp only: of_nat_less_iff)
  then have "uint w < 2^63" by simp
  moreover have "- (2^63) \<le> uint w"
    by (rule order_trans[of _ 0]) simp_all
  ultimately have "signed_take_bit 63 (uint w) = uint w"
    by (rule signed_take_bit_int_eq_self[rotated])
  then show ?thesis by (simp add: sint_uint)
qed

lemma unat_succ: "unat (n::64 word) < 2^63 - 1 \<Longrightarrow> unat (n + 1) = unat n + 1"
proof -
  assume a: "unat n < 2^63 - 1"
  then have "unat n + unat (1::64 word) < 2 ^ LENGTH(64)" by simp
  then show ?thesis by (simp add: unat_add_lem[THEN iffD1])
qed

lemma sless_succ: "unat (n::64 word) < 2^63 - 1 \<Longrightarrow> 0 <s n + 1"
proof -
  assume a: "unat n < 2^63 - 1"
  have u: "unat (n + 1) = unat n + 1" using a by (rule unat_succ)
  then have "unat (n + 1) < 2^63" using a by simp
  then have "sint (n + 1) = int (unat (n + 1))" by (rule sint_small)
  also have "\<dots> = int (unat n) + 1" by (simp only: u of_nat_add of_nat_1)
  finally have "0 < sint (n + 1)" by linarith
  moreover have "sint (0::64 word) = 0" by simp
  ultimately show ?thesis by (simp only: word_sless_alt)
qed

lemma present_case:
  "(case map_of fm w of Some f \<Rightarrow> AList.update w 1 fm | None \<Rightarrow> AList.update w 1 fm) = present w fm"
  by (simp add: present_def split: option.split)

lemma kept_Nil: "kept N sw [] = []"
  by (simp add: kept_def survivors_Nil)

lemma kept_Cons:
  "kept N sw (w0 # rest) =
     (if RuneCountInString (TrimSpace w0) < 2 \<or> IsStopWord sw (TrimSpace w0)
         \<or> isDigit N (TrimSpace w0) then kept N sw rest
      else TrimSpace w0 # kept N sw rest)"
  by (simp add: kept_def survivors_Cons)

lemma CNExtractTags_scan_kept:
  "unat n + length tokens < 2 ^ 63 \<Longrightarrow>
   \<exists>n'. unat n' \<le> unat n + length tokens \<and>
     CNExtractTags_scan N sw tokens (n, ws, fm) =
       (n', ws @ kept N sw tokens, fold present (kept N sw tokens) fm)"
proof (induction tokens arbitrary: n ws fm)
  case Nil
  then show ?case by (simp add: kept_Nil)
next
  case (Cons w0 rest)
  let ?w = "TrimSpace w0"
  show ?case
  proof (cases "RuneCountInString ?w < 2 \<or> IsStopWord sw ?w")
    case True
    from Cons.prems have "unat n + length rest < 2 ^ 63" by simp
    from Cons.IH[OF this, of ws fm] obtain n' where
      "unat n' \<le> unat n + length rest"
      "CNExtractTags_scan N sw rest (n, ws, fm) = (n', ws @ kept N sw rest, fold present (kept N sw rest) fm)"
      by blast
    with True show ?thesis by (auto simp: kept_Cons Let_def)
  next
    case False
    show ?thesis
    proof (cases "isDigit N ?w")
      case d: True
      from Cons.prems have lt: "unat n < 2 ^ 63 - 1" by simp
      have pos: "0 <s n + 1" using lt by (rule sless_succ)
      have u: "unat (n + 1) = unat n + 1" using lt by (rule unat_succ)
      with Cons.prems have "unat (n + 1) + length rest < 2 ^ 63" by simp
      from Cons.IH[OF this, of ws fm] obtain n' where
        "unat n' \<le> unat (n + 1) + length rest"
        "CNExtractTags_scan N sw rest (n + 1, ws, fm) = (n', ws @ kept N sw rest, fold present (kept N sw rest) fm)"
        by blast
      with False d pos u show ?thesis by (auto simp: kept_Cons Let_def)
    next
      case nd: False
      from Cons.prems have "unat n + length rest < 2 ^ 63" by simp
      from Cons.IH[OF this, of "ws @ [?w]" "present ?w fm"] obtain n' where
        "unat n' \<le> unat n + length rest"
        "CNExtractTags_scan N sw rest (n, ws @ [?w], present ?w fm) =
           (n', (ws @ [?w]) @ kept N sw rest, fold present (kept N sw rest) (present ?w fm))"
        by blast
      with False nd show ?thesis
        by (auto simp: kept_Cons Let_def present_case)
    qed
  qed
qed

subsection \<open>The loops of CNExtractTags and the weighting\<close>

lemma set_update_subset: "set (AList.update k v al) \<subseteq> insert (k, v) (set al)"
  by (induction al) auto

lemma keys_present: "fst ` set (present w fm) = insert w (fst ` set fm)"
  by (simp add: present_def dom_update)

lemma keys_fold_present: "fst ` set (fold present X fm) = set X \<union> fst ` set fm"
  by (induction X arbitrary: fm) (auto simp: keys_present)

lemma distinct_fold_present:
  "distinct (map fst fm) \<Longrightarrow> distinct (map fst (fold present X fm))"
  by (induction X arbitrary: fm) (auto simp: present_def distinct_update)

lemma values_fold_present:
  "\<forall>(k, v)\<in>set fm. v = 1 \<Longrightarrow> \<forall>(k, v)\<in>set (fold present X fm). v = 1"
proof (induction X arbitrary: fm)
  case Nil
  then show ?case by simp
next
  case (Cons w X)
  have "\<forall>(k, v)\<in>set (present w fm). v = 1"
    using Cons.prems set_update_subset[of w 1 fm] by (auto simp: present_def)
  from Cons.IH[OF this] show ?case by simp
qed

lemma CNExtractTags_scan_shape:
  "\<exists>n' X. CNExtractTags_scan N sw tokens (n, ws, fm) = (n', ws @ X, fold present X fm)
      \<and> set X \<subseteq> set (survivors sw tokens)"
proof (induction tokens arbitrary: n ws fm)
  case Nil
  then show ?case by simp
next
  case (Cons w0 rest)
  let ?w = "TrimSpace w0"
  show ?case
  proof (cases "RuneCountInString ?w < 2 \<or> IsStopWord sw ?w")
    case True
    from Cons[of n ws fm] True show ?thesis by (auto simp: survivors_Cons Let_def)
  next
    case False
    let ?n = "if isDigit N ?w then n + 1 else n"
    show ?thesis
    proof (cases "isDigit N ?w \<and> 0 <s ?n")
      case True
      from Cons[of "?n" ws fm] obtain n' X where
        "CNExtractTags_scan N sw rest (?n, ws, fm) = (n', ws @ X, fold present X fm)"
        "set X \<subseteq> set (survivors sw rest)" by blast
      with False True show ?thesis by (auto simp: survivors_Cons Let_def)
    next
      case F: False
      from Cons[of "?n" "ws @ [?w]" "present ?w fm"] obtain n' X where
        X: "CNExtractTags_scan N sw rest (?n, ws @ [?w], present ?w fm) =
          (n', (ws @ [?w]) @ X, fold present X (present ?w fm))"
        "set X \<subseteq> set (survivors sw rest)" by blast
      have "CNExtractTags_scan N sw (w0 # rest) (n, ws, fm) =
          CNExtractTags_scan N sw rest (?n, ws @ [?w], present ?w fm)"
        using False F by (simp add: Let_def present_case)
      with X have "CNExtractTags_scan N sw (w0 # rest) (n, ws, fm) =
          (n', ws @ (?w # X), fold present (?w # X) fm)" by simp
      moreover have "set (?w # X) \<subseteq> set (survivors sw (w0 # rest))"
        using X(2) False by (auto simp: survivors_Cons)
      ultimately show ?thesis by blast
    qed
  qed
qed

lemma CNExtractTags_weigh_Cons:
  "CNExtractTags_weigh i ((k, v) # rest) =
     (if snd (Frequency i k) then
        \<lparr>text' = k, weight = fst (Frequency i k) * v\<rparr> # CNExtractTags_weigh i rest
      else CNExtractTags_weigh i rest)"
  by (cases "Frequency i k"; cases "snd (Frequency i k)") simp_all

lemma ExtractTags_weigh_Cons:
  "ExtractTags_weigh i ((k, v) # rest) =
     \<lparr>text' = k,
      weight = (if snd (Frequency i k) then fst (Frequency i k) else median i) * v\<rparr>
     # ExtractTags_weigh i rest"
  by (cases "Frequency i k"; cases "snd (Frequency i k)") simp_all

lemma CNExtractTags_weigh_eq:
  "CNExtractTags_weigh i fm =
     map (\<lambda>(k, v). \<lparr>text' = k, weight = fst (Frequency i k) * v\<rparr>)
       (filter (\<lambda>(k, v). snd (Frequency i k)) fm)"
proof (induction fm)
  case Nil
  show ?case by simp
next
  case (Cons kv fm)
  obtain k v where kv: "kv = (k, v)" by (cases kv)
  show ?case unfolding kv CNExtractTags_weigh_Cons using Cons by simp
qed

lemma ExtractTags_weigh_eq:
  "ExtractTags_weigh i fm =
     map (\<lambda>(k, v). \<lparr>text' = k,
            weight = (if snd (Frequency i k) then fst (Frequency i k) else median i) * v\<rparr>) fm"
proof (induction fm)
  case Nil
  show ?case by simp
next
  case (Cons kv fm)
  obtain k v where kv: "kv = (k, v)" by (cases kv)
  show ?case unfolding kv ExtractTags_weigh_Cons using Cons by simp
qed

lemma in_CNExtractTags_weigh:
  "s \<in> set (CNExtractTags_weigh i fm) \<Longrightarrow>
     \<exists>v. (text' s, v) \<in> set fm \<and> snd (Frequency i (text' s))
       \<and> weight s = fst (Frequency i (text' s)) * v"
  by (auto simp: CNExtractTags_weigh_eq)

lemma text_CNExtractTags_weigh:
  "map text' (CNExtractTags_weigh i fm) = filter (\<lambda>k. snd (Frequency i k)) (map fst fm)"
  by (induction fm) (auto simp: CNExtractTags_weigh_eq)

lemma in_ExtractTags_weigh:
  "s \<in> set (ExtractTags_weigh i fm) \<Longrightarrow>
     \<exists>v. (text' s, v) \<in> set fm \<and>
       weight s = (if snd (Frequency i (text' s)) then fst (Frequency i (text' s)) else median i) * v"
  by (auto simp: ExtractTags_weigh_eq)

subsection \<open>Evaluating the sample data\<close>

lemma demo_simps:
  "Cut (seg demo) s h = blank_split [] s"
  "Frequency (idf demo) w =
     (if w = ascii ''quick'' then (2, True)
      else if w = ascii ''brown'' then (3 / 2, True)
      else if w = ascii ''lazy'' then (3 / 2, True)
      else (0, False))"
  "median (idf demo) = 1"
  "IsStopWord (stopWord demo) w = (w = ascii ''of'')"
  by (simp_all add: demo_def)

lemmas run_simps =
  ExtractTags_def CNExtractTags_def demo_simps ascii_def TrimSpace_def IsSpace_def
  RuneCountInString_def fdiv_def topK_of_def Len_def before_def Reverse_def Less_def Let_def
  isDigit_def ascii_digit_def word_sless_alt

subsection \<open>The collection ExtractTags sorts\<close>

lemma survivors_empty_iff:
  "survivors sw tokens = [] \<longleftrightarrow>
     (\<forall>w\<in>set tokens. RuneCountInString (TrimSpace w) < 2 \<or> IsStopWord sw (TrimSpace w))"
  by (induction tokens) (auto simp: survivors_Nil survivors_Cons)

lemma distinct_text_Sort:
  "distinct (map text' (Sort d xs)) = distinct (map text' xs)"
  by (rule mset_eq_imp_distinct_iff) (simp add: mset_Sort)

lemma ExtractTags_collection:
  fixes t sentence
  defines "S \<equiv> survivors (stopWord t) (Cut (seg t) sentence True)"
  defines "ws \<equiv> Sort (Reverse Less) (ExtractTags_weigh (idf t)
       (map (\<lambda>(k, v). (k, v / real (length S))) (fold counted S [])))"
  shows "ExtractTags t sentence topK = Inr (topK_of topK ws)"
    and "distinct (map text' ws)"
    and "text' ` set ws = set S"
    and "length ws = length (remdups S)"
proof -
  let ?fm = "map (\<lambda>(k, v). (k, v / real (length S))) (fold counted S [])"
  show "ExtractTags t sentence topK = Inr (topK_of topK ws)"
    unfolding ws_def S_def by (rule ExtractTags_eq)
  have keys: "map fst ?fm = map fst (fold counted S [])"
    by (simp add: case_prod_unfold comp_def)
  have d: "distinct (map fst ?fm)"
    unfolding keys by (rule distinct_fold_counted) simp
  then show dw: "distinct (map text' ws)"
    by (simp only: ws_def distinct_text_Sort text_ExtractTags_weigh)
  have "set (map text' ws) = set (map text' (ExtractTags_weigh (idf t) ?fm))"
    unfolding ws_def by (simp only: set_map set_Sort)
  also have "\<dots> = set (map fst ?fm)"
    by (simp only: text_ExtractTags_weigh)
  also have "\<dots> = set S"
    unfolding keys using keys_fold_counted[of S "[]"] by simp
  finally show st: "text' ` set ws = set S" by simp
  have "length ws = length (map text' ws)" by simp
  also have "\<dots> = card (set (map text' ws))" using dw by (simp only: distinct_card)
  also have "\<dots> = card (set S)" using st by simp
  finally show "length ws = length (remdups S)" by (simp only: length_remdups_card_conv)
qed

subsection \<open>The collection CNExtractTags sorts\<close>

lemma CNExtractTags_collection:
  "\<exists>X. set X \<subseteq> set (survivors (stopWord t) (Cut (seg t) sentence True)) \<and>
     snd (CNExtractTags_scan N (stopWord t) (Cut (seg t) sentence True) (0, [], []))
       = (X, fold present X []) \<and>
     CNExtractTags N t sentence topK =
       (topK_of topK (Sort (Reverse Less) (CNExtractTags_weigh (idf t) (fold present X []))), X)"
proof -
  from CNExtractTags_scan_shape[of N "stopWord t" "Cut (seg t) sentence True" 0 "[]" "[]"]
  obtain n' X where
    "CNExtractTags_scan N (stopWord t) (Cut (seg t) sentence True) (0, [], []) =
       (n', [] @ X, fold present X [])"
    "set X \<subseteq> set (survivors (stopWord t) (Cut (seg t) sentence True))" by blast
  then show ?thesis by (auto simp: CNExtractTags_def)
qed

lemma CNExtractTags_collection_kept:
  assumes "length (Cut (seg t) sentence True) < 2 ^ 63"
  shows "snd (CNExtractTags_scan N (stopWord t) (Cut (seg t) sentence True) (0, [], []))
       = (kept N (stopWord t) (Cut (seg t) sentence True),
          fold present (kept N (stopWord t) (Cut (seg t) sentence True)) [])"
    and "CNExtractTags N t sentence topK =
       (topK_of topK (Sort (Reverse Less) (CNExtractTags_weigh (idf t)
          (fold present (kept N (stopWord t) (Cut (seg t) sentence True)) []))),
        kept N (stopWord t) (Cut (seg t) sentence True))"
proof -
  have "unat (0::64 word) + length (Cut (seg t) sentence True) < 2 ^ 63"
    using assms by simp
  from CNExtractTags_scan_kept[OF this, of N "stopWord t" "[]" "[]"]
  obtain n' where n: "CNExtractTags_scan N (stopWord t) (Cut (seg t) sentence True) (0, [], []) =
       (n', [] @ kept N (stopWord t) (Cut (seg t) sentence True),
        fold present (kept N (stopWord t) (Cut (seg t) sentence True)) [])" by blast
  then show "snd (CNExtractTags_scan N (stopWord t) (Cut (seg t) sentence True) (0, [], []))
       = (kept N (stopWord t) (Cut (seg t) sentence True),
          fold present (kept N (stopWord t) (Cut (seg t) sentence True)) [])" by simp
  from n show "CNExtractTags N t sentence topK =
       (topK_of topK (Sort (Reverse Less) (CNExtractTags_weigh (idf t)
          (fold present (kept N (stopWord t) (Cut (seg t) sentence True)) []))),
        kept N (stopWord t) (Cut (seg t) sentence True))"
    by (simp add: CNExtractTags_def)
qed

lemma distinct_CNExtractTags_weigh:
  "distinct (map fst fm) \<Longrightarrow> distinct (map text' (CNExtractTags_weigh i fm))"
  by (simp add: text_CNExtractTags_weigh)

lemma text_topK_CN:
  "text' ` set (topK_of topK (Sort (Reverse Less) (CNExtractTags_weigh i (fold present X []))))
     \<subseteq> set X"
proof -
  have "text' ` set (CNExtractTags_weigh i (fold present X [])) \<subseteq> fst ` set (fold present X [])"
    using text_CNExtractTags_weigh[of i "fold present X []"]
    by (metis filter_is_subset set_map)
  also have "\<dots> = set X" by (simp add: keys_fold_present)
  finally show ?thesis
    using set_topK_of[of topK "Sort (Reverse Less) (CNExtractTags_weigh i (fold present X []))"]
    by (auto simp: set_Sort)
qed

lemma kept_filter_tokens:
  "kept N sw (filter (\<lambda>w0. \<not> isDigit N (TrimSpace w0)) tokens) = kept N sw tokens"
  by (induction tokens) (auto simp: kept_Cons kept_Nil)

lemma survivor_props:
  "x \<in> set (survivors sw tokens) \<Longrightarrow>
     TrimSpace x = x \<and> \<not> RuneCountInString (TrimSpace x) < 2 \<and> \<not> IsStopWord sw (TrimSpace x)"
  by (auto simp: survivors_def TrimSpace_idem)

subsection \<open>Order of the result\<close>

lemma sorted_wrt_distinct_text:
  "sorted_wrt seg_ge xs \<Longrightarrow> distinct (map text' xs) \<Longrightarrow>
   sorted_wrt (\<lambda>a b. weight b \<le> weight a \<and> (weight a = weight b \<longrightarrow> text' b < text' a)) xs"
proof (induction xs)
  case Nil
  then show ?case by simp
next
  case (Cons x xs)
  have "\<forall>y\<in>set xs. weight y \<le> weight x \<and> (weight x = weight y \<longrightarrow> text' y < text' x)"
  proof
    fix y assume y: "y \<in> set xs"
    with Cons.prems have "seg_ge x y" "text' x \<noteq> text' y" by auto
    then show "weight y \<le> weight x \<and> (weight x = weight y \<longrightarrow> text' y < text' x)"
      by (auto simp: seg_ge_iff)
  qed
  with Cons show ?case by simp
qed

lemma sorted_as_coded_topK:
  assumes "distinct (map text' ws)"
  shows "sorted_as_coded (topK_of topK (Sort (Reverse Less) ws))"
proof -
  let ?R = "\<lambda>a b. weight b \<le> weight a \<and> (weight a = weight b \<longrightarrow> text' b < text' a)"
  have "sorted_wrt ?R (Sort (Reverse Less) ws)"
    using sorted_Sort[of ws] assms by (intro sorted_wrt_distinct_text) (simp_all add: distinct_text_Sort)
  then have "sorted_wrt ?R (topK_of topK (Sort (Reverse Less) ws))"
    by (simp add: topK_of_def sorted_wrt_take)
  then show ?thesis
    unfolding sorted_as_coded_def by (rule successively_if_sorted_wrt)
qed

subsection \<open>Frequencies\<close>

lemma sum_list_divide:
  "sum_list (map snd (map (\<lambda>(k, v). (k, v / c)) fm)) = sum_list (map snd fm) / (c::real)"
  by (induction fm) (auto simp: add_divide_distrib)

lemma count_fold_counted:
  assumes "(k, c) \<in> set (fold counted S [])"
  shows "c = real (count_list S k)"
proof -
  have "distinct (map fst (fold counted S []))"
    by (rule distinct_fold_counted) simp
  with assms have "map_of (fold counted S []) k = Some c" by simp
  then show ?thesis
    by (simp add: map_of_fold_counted split: if_splits)
qed

lemma rounded_sum_bound:
  fixes rnd :: "real \<Rightarrow> real"
  assumes "\<And>x. \<bar>rnd x - x\<bar> \<le> u * \<bar>x\<bar>"
  shows "\<bar>sum_list (map rnd xs) - sum_list xs\<bar> \<le> u * sum_list (map abs xs)"
proof (induction xs)
  case Nil
  show ?case by simp
next
  case (Cons x xs)
  have "\<bar>sum_list (map rnd (x # xs)) - sum_list (x # xs)\<bar>
      \<le> \<bar>rnd x - x\<bar> + \<bar>sum_list (map rnd xs) - sum_list xs\<bar>" by simp
  also have "\<dots> \<le> u * \<bar>x\<bar> + u * sum_list (map abs xs)"
    using assms[of x] Cons by (rule add_mono)
  finally show ?case by (simp add: algebra_simps)
qed

lemma rounded_frequencies:
  fixes rnd :: "real \<Rightarrow> real"
  assumes r: "\<And>x. \<bar>rnd x - x\<bar> \<le> u * \<bar>x\<bar>"
    and pos: "\<forall>(k, c)\<in>set fm. 0 \<le> c" and n: "sum_list (map snd fm) = n" and n0: "0 < n"
  shows "\<bar>sum_list (map (\<lambda>(k, c). rnd (c / n)) fm) - 1\<bar> \<le> u"
proof -
  let ?xs = "map (\<lambda>(k, c). c / n) fm"
  have a: "map abs ?xs = ?xs"
    using pos n0 by (induction fm) auto
  have "?xs = map snd (map (\<lambda>(k, v). (k, v / n)) fm)"
    by (simp add: case_prod_unfold comp_def)
  then have s: "sum_list ?xs = 1"
    using n n0 by (simp only: sum_list_divide) simp
  have m: "map rnd ?xs = map (\<lambda>(k, c). rnd (c / n)) fm"
    by (simp add: case_prod_unfold comp_def)
  from rounded_sum_bound[of rnd u ?xs, OF r] show ?thesis
    unfolding a s m by simp
qed

subsection \<open>Runs on the sample data\<close>

lemma run_ab_cd: "ExtractTags demo (ascii ''ab cd'') (- 1) =
    Inr [\<lparr>text' = ascii ''cd'', weight = 1 / 2\<rparr>, \<lparr>text' = ascii ''ab'', weight = 1 / 2\<rparr>]"
  by (simp add: run_simps)

lemma run_brown_lazy: "CNExtractTags ascii_digit demo (ascii ''brown lazy'') (- 1) =
    ([\<lparr>text' = ascii ''lazy'', weight = 3 / 2\<rparr>, \<lparr>text' = ascii ''brown'', weight = 3 / 2\<rparr>],
     [ascii ''brown'', ascii ''lazy''])"
  by (simp add: run_simps)

lemma run_numbers:
  "CNExtractTags ascii_digit demo (ascii ''quick 12 brown of fox 345 quick 12'') 5 =
   ([\<lparr>text' = ascii ''quick'', weight = 2\<rparr>, \<lparr>text' = ascii ''brown'', weight = 3 / 2\<rparr>],
    [ascii ''quick'', ascii ''brown'', ascii ''fox'', ascii ''quick''])"
  by (simp add: run_simps)

lemma run_numbers_scan:
  "CNExtractTags_scan ascii_digit (stopWord demo)
      (Cut (seg demo) (ascii ''quick 12 brown of fox 345 quick 12'') True) (0, [], []) =
   (3, [ascii ''quick'', ascii ''brown'', ascii ''fox'', ascii ''quick''],
    [(ascii ''quick'', 1), (ascii ''brown'', 1), (ascii ''fox'', 1)])"
  by (simp add: run_simps)

subsection \<open>The order of range over a map does not matter\<close>

lemma sorted_Sort_before:
  "sorted_wrt (\<lambda>a b. \<not> before (Reverse Less) b a) (Sort (Reverse Less) xs)"
  using sorted_Sort[of xs] by (simp only: seg_ge_def[abs_def])

lemma Sort_mset_cong:
  assumes "mset xs' = mset xs"
  shows "Sort (Reverse Less) xs' = Sort (Reverse Less) xs"
proof (rule Sort_Reverse_Less_unique)
  show "mset (Sort (Reverse Less) xs) = mset xs'"
    by (simp only: mset_Sort assms)
  show "sorted_wrt (\<lambda>a b. \<not> before (Reverse Less) b a) (Sort (Reverse Less) xs)"
    by (rule sorted_Sort_before)
qed

lemma range_order_irrelevant:
  assumes "mset fm' = mset fm"
  shows "ExtractTags_total fm' 0 = ExtractTags_total fm 0"
    and "Sort (Reverse Less) (ExtractTags_weigh i fm') = Sort (Reverse Less) (ExtractTags_weigh i fm)"
    and "Sort (Reverse Less) (CNExtractTags_weigh i fm') = Sort (Reverse Less) (CNExtractTags_weigh i fm)"
proof -
  have "sum_mset (mset (map snd fm')) = sum_mset (mset (map snd fm))"
    by (simp add: assms)
  then have "sum_list (map snd fm') = sum_list (map snd fm)"
    by (simp only: sum_mset_sum_list)
  then show "ExtractTags_total fm' 0 = ExtractTags_total fm 0"
    by (simp only: ExtractTags_total_sum)
  have "mset (ExtractTags_weigh i fm') = mset (ExtractTags_weigh i fm)"
    unfolding ExtractTags_weigh_eq by (simp add: assms)
  then show "Sort (Reverse Less) (ExtractTags_weigh i fm') =
      Sort (Reverse Less) (ExtractTags_weigh i fm)"
    by (rule Sort_mset_cong)
  have "mset (CNExtractTags_weigh i fm') = mset (CNExtractTags_weigh i fm)"
    unfolding CNExtractTags_weigh_eq by (simp add: assms)
  then show "Sort (Reverse Less) (CNExtractTags_weigh i fm') =
      Sort (Reverse Less) (CNExtractTags_weigh i fm)"
    by (rule Sort_mset_cong)
qed

subsection \<open>What the loaders leave of the stop words\<close>

lemma LoadDictionary_stopWord:
  "stopWord (snd (LoadDictionary NewStopWord load t fileName)) = NewStopWord"
  "idf (snd (LoadDictionary NewStopWord load t fileName)) = idf t"
  by (simp_all add: LoadDictionary_def split: prod.split)

lemma LoadDictionary_after_LoadStopWords:
  "stopWord (snd (LoadDictionary NewStopWord load
      (snd (LoadStopWords NewStopWord loadDictionary t stopWordsFile)) dictionaryFile)) = NewStopWord"
  by (rule LoadDictionary_stopWord)

subsection \<open>The counter of numeric tokens at the largest int\<close>

text \<open>
  From \<^verbatim>\<open>numCount\<close> = 2^63 - 1 the increment wraps to a negative number, the test
  \<^verbatim>\<open>numCount > 0\<close> fails and a numeric token is kept. A run that starts at 0 gets there
  only after 2^63 - 1 numeric tokens.
\<close>

lemma max_int_successor_not_positive: "\<not> (0::64 word) <s 9223372036854775807 + 1"
  by (simp add: word_sless_alt)

lemma numCount_wraps:
  "CNExtractTags_scan ascii_digit (stopWord demo) [ascii ''12'']
     (9223372036854775807, [], []) =
   (9223372036854775807 + 1, [ascii ''12''], [(ascii ''12'', 1)])"
proof -
  have d: "isDigit ascii_digit (TrimSpace (ascii ''12''))"
    by (simp add: isDigit_def ascii_digit_def ascii_def TrimSpace_def IsSpace_def)
  have l: "\<not> RuneCountInString (TrimSpace (ascii ''12'')) < 2"
    by (simp add: RuneCountInString_def ascii_def TrimSpace_def IsSpace_def)
  have s: "\<not> IsStopWord (stopWord demo) (TrimSpace (ascii ''12''))"
    by (simp add: demo_simps ascii_def TrimSpace_def IsSpace_def)
  have t: "TrimSpace (ascii ''12'') = ascii ''12''"
    by (simp add: ascii_def TrimSpace_def IsSpace_def)
  show ?thesis
    using d l s max_int_successor_not_positive by (simp add: Let_def t del: One_nat_def)
qed

section \<open>The claims\<close>

text \<open>
  Claim C1 (amended). The collection returned by \<^verbatim>\<open>ExtractTags\<close>, and the one
  returned by \<^verbatim>\<open>CNExtractTags\<close>, is sorted so that between neighbours the weight does
  not increase, and neighbours of equal weight stand in descending lexicographic order of
  their text: \<^verbatim>\<open>sort.Reverse\<close> reverses the whole order of \<^verbatim>\<open>Less\<close>, the comparison of
  the texts included.
\<close>

theorem extracted_tags_sorted:
  "(\<exists>tags. ExtractTags t sentence topK = Inr tags \<and> sorted_as_coded tags) \<and>
   sorted_as_coded (fst (CNExtractTags IsNumber t sentence topK))"
proof
  note c = ExtractTags_collection[of t sentence]
  have "distinct (map text' (ExtractTags_weigh (idf t)
       (map (\<lambda>(k, v). (k, v / real (length (survivors (stopWord t) (Cut (seg t) sentence True)))))
          (fold counted (survivors (stopWord t) (Cut (seg t) sentence True)) []))))"
    using c(2) by (simp only: distinct_text_Sort)
  then show "\<exists>tags. ExtractTags t sentence topK = Inr tags \<and> sorted_as_coded tags"
    unfolding c(1) by (auto intro: sorted_as_coded_topK)
next
  from CNExtractTags_collection[of t sentence IsNumber topK] obtain X where
    X: "CNExtractTags IsNumber t sentence topK =
       (topK_of topK (Sort (Reverse Less) (CNExtractTags_weigh (idf t) (fold present X []))), X)"
    by blast
  have "distinct (map fst (fold present X []))"
    by (rule distinct_fold_present) simp
  then have "distinct (map text' (CNExtractTags_weigh (idf t) (fold present X [])))"
    by (rule distinct_CNExtractTags_weigh)
  then show "sorted_as_coded (fst (CNExtractTags IsNumber t sentence topK))"
    unfolding X by (simp add: sorted_as_coded_topK)
qed

theorem extracted_tags_sorted_witness:
  "sorted_as_coded [\<lparr>text' = ascii ''cd'', weight = 1 / 2\<rparr>, \<lparr>text' = ascii ''ab'', weight = 1 / 2\<rparr>]
   \<and> sorted_as_coded [\<lparr>text' = ascii ''lazy'', weight = 3 / 2\<rparr>, \<lparr>text' = ascii ''brown'', weight = 3 / 2\<rparr>]"
  using extracted_tags_sorted[of demo "ascii ''ab cd''" "- 1" ascii_digit]
    extracted_tags_sorted[of demo "ascii ''brown lazy''" "- 1" ascii_digit]
  by (simp add: run_ab_cd run_brown_lazy)

text \<open>
  Claim C1 as stated fails: two tokens of equal weight come out with the greater text
  first, in both extractors.
\<close>

theorem ties_not_ascending_counterexample:
  "ExtractTags demo (ascii ''ab cd'') (- 1) =
     Inr [\<lparr>text' = ascii ''cd'', weight = 1 / 2\<rparr>, \<lparr>text' = ascii ''ab'', weight = 1 / 2\<rparr>]
   \<and> \<not> sorted_as_specified
         [\<lparr>text' = ascii ''cd'', weight = 1 / 2\<rparr>, \<lparr>text' = ascii ''ab'', weight = 1 / 2\<rparr>]
   \<and> fst (CNExtractTags ascii_digit demo (ascii ''brown lazy'') (- 1)) =
     [\<lparr>text' = ascii ''lazy'', weight = 3 / 2\<rparr>, \<lparr>text' = ascii ''brown'', weight = 3 / 2\<rparr>]
   \<and> \<not> sorted_as_specified
         [\<lparr>text' = ascii ''lazy'', weight = 3 / 2\<rparr>, \<lparr>text' = ascii ''brown'', weight = 3 / 2\<rparr>]"
proof -
  have "\<not> sorted_as_specified
         [\<lparr>text' = ascii ''cd'', weight = 1 / 2\<rparr>, \<lparr>text' = ascii ''ab'', weight = 1 / 2\<rparr>]"
    by (simp add: sorted_as_specified_def ascii_def)
  moreover have "\<not> sorted_as_specified
         [\<lparr>text' = ascii ''lazy'', weight = 3 / 2\<rparr>, \<lparr>text' = ascii ''brown'', weight = 3 / 2\<rparr>]"
    by (simp add: sorted_as_specified_def ascii_def)
  ultimately show ?thesis
    by (simp only: run_ab_cd run_brown_lazy fst_conv simp_thms)
qed

text \<open>
  Claim C2. \<^verbatim>\<open>ExtractTags\<close> returns at most \<open>max topK 0\<close> segments when \<open>topK\<close> is not
  negative. When \<open>topK\<close> is negative it returns the full collection: one segment for each
  distinct surviving token, so as many segments as there are distinct surviving tokens.
\<close>

theorem ExtractTags_length:
  "\<exists>tags. ExtractTags t sentence topK = Inr tags \<and>
     (0 \<le> topK \<longrightarrow> int (length tags) \<le> max topK 0) \<and>
     (topK < 0 \<longrightarrow>
        length tags = length (remdups (survivors (stopWord t) (Cut (seg t) sentence True))) \<and>
        distinct (map text' tags) \<and>
        text' ` set tags = set (survivors (stopWord t) (Cut (seg t) sentence True)))"
proof -
  note c = ExtractTags_collection[of t sentence]
  define ws where "ws = Sort (Reverse Less) (ExtractTags_weigh (idf t)
       (map (\<lambda>(k, v). (k, v / real (length (survivors (stopWord t) (Cut (seg t) sentence True)))))
          (fold counted (survivors (stopWord t) (Cut (seg t) sentence True)) [])))"
  have e: "ExtractTags t sentence topK = Inr (topK_of topK ws)"
    unfolding ws_def by (rule c(1))
  have 1: "0 \<le> topK \<Longrightarrow> int (length (topK_of topK ws)) \<le> max topK 0"
    by (simp add: length_topK_of)
  have 2: "topK < 0 \<Longrightarrow> topK_of topK ws = ws"
    by (simp add: topK_of_def)
  show ?thesis
    unfolding e using 1 2 c(2,3,4) by (auto simp: ws_def[symmetric])
qed

theorem ExtractTags_length_witness:
  "ExtractTags demo (ascii ''the quick brown fox the quick brown fox'') 2 =
     Inr [\<lparr>text' = ascii ''quick'', weight = 1 / 2\<rparr>, \<lparr>text' = ascii ''brown'', weight = 3 / 8\<rparr>]
   \<and> (\<exists>tags. ExtractTags demo (ascii ''the quick brown fox the quick brown fox'') (- 1) = Inr tags
         \<and> length tags = 4 \<and> distinct (map text' tags))"
proof -
  have e: "ExtractTags demo (ascii ''the quick brown fox the quick brown fox'') 2 =
     Inr [\<lparr>text' = ascii ''quick'', weight = 1 / 2\<rparr>, \<lparr>text' = ascii ''brown'', weight = 3 / 8\<rparr>]"
    by (simp add: run_simps)
  have s: "survivors (stopWord demo)
       (Cut (seg demo) (ascii ''the quick brown fox the quick brown fox'') True) =
     [ascii ''the'', ascii ''quick'', ascii ''brown'', ascii ''fox'',
      ascii ''the'', ascii ''quick'', ascii ''brown'', ascii ''fox'']"
    by (simp add: survivors_def run_simps)
  have c: "length (remdups (survivors (stopWord demo)
        (Cut (seg demo) (ascii ''the quick brown fox the quick brown fox'') True))) = 4"
    unfolding s by (simp add: ascii_def)
  have n: "(- 1 :: int) < 0" by simp
  from ExtractTags_length[of demo "ascii ''the quick brown fox the quick brown fox''" "- 1"]
  obtain tags where
    t: "ExtractTags demo (ascii ''the quick brown fox the quick brown fox'') (- 1) = Inr tags"
    and "- 1 < (0::int) \<longrightarrow>
        length tags = length (remdups (survivors (stopWord demo)
          (Cut (seg demo) (ascii ''the quick brown fox the quick brown fox'') True))) \<and>
        distinct (map text' tags) \<and>
        text' ` set tags = set (survivors (stopWord demo)
          (Cut (seg demo) (ascii ''the quick brown fox the quick brown fox'') True))"
    by blast
  with n c have "length tags = 4 \<and> distinct (map text' tags)" by simp
  with t e show ?thesis by blast
qed

text \<open>
  Claim C3. In \<^verbatim>\<open>CNExtractTags\<close> every purely numeric token is skipped: \<^verbatim>\<open>numCount\<close>
  is positive right after its first increment and stays positive, so the words and the
  frequency map are those of the token stream without its numeric tokens, and no numeric
  token is a key of the frequency map, an element of the returned words or the text of a
  returned segment. This holds for the first numeric token as for the later ones. The
  counter is a 64-bit \<^verbatim>\<open>int\<close>; the hypothesis keeps it from wrapping around, and every
  token stream that fits into memory satisfies it.
\<close>

theorem numeric_tokens_skipped:
  assumes "length (Cut (seg t) sentence True) < 2 ^ 63"
  shows "snd (CNExtractTags_scan IsNumber (stopWord t) (Cut (seg t) sentence True) (0, [], [])) =
         snd (CNExtractTags_scan IsNumber (stopWord t)
                (filter (\<lambda>w0. \<not> isDigit IsNumber (TrimSpace w0)) (Cut (seg t) sentence True))
                (0, [], []))
       \<and> (\<forall>w. isDigit IsNumber w \<longrightarrow>
            w \<notin> fst ` set (snd (snd (CNExtractTags_scan IsNumber (stopWord t)
                    (Cut (seg t) sentence True) (0, [], []))))
          \<and> w \<notin> set (snd (CNExtractTags IsNumber t sentence topK))
          \<and> w \<notin> text' ` set (fst (CNExtractTags IsNumber t sentence topK)))"
proof -
  let ?toks = "Cut (seg t) sentence True"
  let ?K = "kept IsNumber (stopWord t) ?toks"
  note k = CNExtractTags_collection_kept[OF assms, of IsNumber]
  have nd: "\<And>w. isDigit IsNumber w \<Longrightarrow> w \<notin> set ?K"
    by (simp add: kept_def)
  have "length (filter (\<lambda>w0. \<not> isDigit IsNumber (TrimSpace w0)) ?toks) \<le> length ?toks"
    by (rule length_filter_le)
  then have "length (filter (\<lambda>w0. \<not> isDigit IsNumber (TrimSpace w0)) ?toks) < 2 ^ 63"
    using assms by (rule le_less_trans)
  then have "unat (0::64 word) + length (filter (\<lambda>w0. \<not> isDigit IsNumber (TrimSpace w0)) ?toks) < 2 ^ 63"
    by simp
  from CNExtractTags_scan_kept[OF this, of IsNumber "stopWord t" "[]" "[]"]
  have "snd (CNExtractTags_scan IsNumber (stopWord t)
                (filter (\<lambda>w0. \<not> isDigit IsNumber (TrimSpace w0)) ?toks) (0, [], []))
        = (?K, fold present ?K [])"
    by (auto simp: kept_filter_tokens)
  then have 1: "snd (CNExtractTags_scan IsNumber (stopWord t) ?toks (0, [], [])) =
         snd (CNExtractTags_scan IsNumber (stopWord t)
                (filter (\<lambda>w0. \<not> isDigit IsNumber (TrimSpace w0)) ?toks) (0, [], []))"
    using k(1) by simp
  have 2: "\<And>w. isDigit IsNumber w \<Longrightarrow>
      w \<notin> fst ` set (snd (snd (CNExtractTags_scan IsNumber (stopWord t) ?toks (0, [], []))))"
    unfolding k(1) using nd by (simp add: keys_fold_present)
  have 3: "\<And>w. isDigit IsNumber w \<Longrightarrow> w \<notin> set (snd (CNExtractTags IsNumber t sentence topK))"
    unfolding k(2) using nd by simp
  have 4: "\<And>w. isDigit IsNumber w \<Longrightarrow>
      w \<notin> text' ` set (fst (CNExtractTags IsNumber t sentence topK))"
    unfolding k(2) using nd text_topK_CN[of topK "idf t" ?K] by auto
  from 1 2 3 4 show ?thesis by blast
qed

theorem numeric_tokens_skipped_witness:
  "isDigit ascii_digit (ascii ''12'') \<and> isDigit ascii_digit (ascii ''345'')
   \<and> ascii ''12'' \<notin> set (snd (CNExtractTags ascii_digit demo
          (ascii ''quick 12 brown of fox 345 quick 12'') 5))
   \<and> ascii ''345'' \<notin> fst ` set (snd (snd (CNExtractTags_scan ascii_digit (stopWord demo)
          (Cut (seg demo) (ascii ''quick 12 brown of fox 345 quick 12'') True) (0, [], []))))
   \<and> snd (CNExtractTags_scan ascii_digit (stopWord demo)
          (Cut (seg demo) (ascii ''quick 12 brown of fox 345 quick 12'') True) (0, [], [])) =
     ([ascii ''quick'', ascii ''brown'', ascii ''fox'', ascii ''quick''],
      [(ascii ''quick'', 1), (ascii ''brown'', 1), (ascii ''fox'', 1)])"
proof -
  let ?s = "ascii ''quick 12 brown of fox 345 quick 12''"
  have b: "length (Cut (seg demo) ?s True) < 2 ^ 63"
    by (simp add: run_simps)
  have d1: "isDigit ascii_digit (ascii ''12'')" and d2: "isDigit ascii_digit (ascii ''345'')"
    by (simp_all add: run_simps)
  note n = numeric_tokens_skipped[where t = demo and sentence = ?s and IsNumber = ascii_digit
      and topK = 5, OF b]
  from n d1 have "ascii ''12'' \<notin> set (snd (CNExtractTags ascii_digit demo ?s 5))" by blast
  moreover from n d2 have "ascii ''345'' \<notin> fst ` set (snd (snd (CNExtractTags_scan ascii_digit
      (stopWord demo) (Cut (seg demo) ?s True) (0, [], []))))" by blast
  moreover have "snd (CNExtractTags_scan ascii_digit (stopWord demo)
      (Cut (seg demo) ?s True) (0, [], [])) =
     ([ascii ''quick'', ascii ''brown'', ascii ''fox'', ascii ''quick''],
      [(ascii ''quick'', 1), (ascii ''brown'', 1), (ascii ''fox'', 1)])"
    by (simp only: run_numbers_scan snd_conv)
  ultimately show ?thesis using d1 d2 by blast
qed

text \<open>
  Claim C4. The text of every segment that \<^verbatim>\<open>CNExtractTags\<close> returns is a key of the
  IDF table (\<^verbatim>\<open>Frequency\<close> reports it as found). A token the table does not know is
  dropped: it gets no segment, with the median or otherwise.
\<close>

theorem CNExtractTags_only_idf_keys:
  "(\<forall>s\<in>set (fst (CNExtractTags IsNumber t sentence topK)). snd (Frequency (idf t) (text' s))) \<and>
   (\<forall>w. \<not> snd (Frequency (idf t) w) \<longrightarrow>
      w \<notin> text' ` set (fst (CNExtractTags IsNumber t sentence topK)))"
proof -
  from CNExtractTags_collection[of t sentence IsNumber topK] obtain X where
    X: "CNExtractTags IsNumber t sentence topK =
       (topK_of topK (Sort (Reverse Less) (CNExtractTags_weigh (idf t) (fold present X []))), X)"
    by blast
  have "\<forall>s\<in>set (fst (CNExtractTags IsNumber t sentence topK)). snd (Frequency (idf t) (text' s))"
  proof
    fix s assume "s \<in> set (fst (CNExtractTags IsNumber t sentence topK))"
    then have "s \<in> set (CNExtractTags_weigh (idf t) (fold present X []))"
      unfolding X
      using set_topK_of[of topK "Sort (Reverse Less) (CNExtractTags_weigh (idf t) (fold present X []))"]
      by (auto simp: set_Sort)
    from in_CNExtractTags_weigh[OF this] show "snd (Frequency (idf t) (text' s))" by blast
  qed
  then show ?thesis by blast
qed

theorem CNExtractTags_only_idf_keys_witness:
  "\<not> snd (Frequency (idf demo) (ascii ''fox''))
   \<and> ascii ''fox'' \<in> set (snd (CNExtractTags ascii_digit demo
          (ascii ''quick 12 brown of fox 345 quick 12'') 5))
   \<and> ascii ''fox'' \<notin> text' ` set (fst (CNExtractTags ascii_digit demo
          (ascii ''quick 12 brown of fox 345 quick 12'') 5))
   \<and> snd (Frequency (idf demo) (ascii ''quick''))"
proof -
  let ?s = "ascii ''quick 12 brown of fox 345 quick 12''"
  note k = CNExtractTags_only_idf_keys[of ascii_digit demo ?s 5]
  have f: "\<not> snd (Frequency (idf demo) (ascii ''fox''))"
    by (simp add: demo_simps ascii_def)
  have w: "ascii ''fox'' \<in> set (snd (CNExtractTags ascii_digit demo ?s 5))"
    unfolding run_numbers by simp
  have q: "\<lparr>text' = ascii ''quick'', weight = 2\<rparr> \<in> set (fst (CNExtractTags ascii_digit demo ?s 5))"
    unfolding run_numbers by simp
  from k f have "ascii ''fox'' \<notin> text' ` set (fst (CNExtractTags ascii_digit demo ?s 5))"
    by blast
  moreover from k q have "snd (Frequency (idf demo) (text' \<lparr>text' = ascii ''quick'', weight = 2\<rparr>))"
    by blast
  ultimately show ?thesis using f w by simp
qed

text \<open>
  Claim C5. In \<^verbatim>\<open>CNExtractTags\<close> the frequency map holds the value 1.0 for every key,
  however often the token occurs, and nothing normalizes it: the weight of every returned
  segment is the IDF value of its text times 1.0.
\<close>

theorem CNExtractTags_presence_weight:
  "(\<forall>(k, v)\<in>set (snd (snd (CNExtractTags_scan IsNumber (stopWord t)
        (Cut (seg t) sentence True) (0, [], [])))). v = 1) \<and>
   (\<forall>s\<in>set (fst (CNExtractTags IsNumber t sentence topK)).
      snd (Frequency (idf t) (text' s)) \<and> weight s = fst (Frequency (idf t) (text' s)) * 1)"
proof
  from CNExtractTags_collection[of t sentence IsNumber topK] obtain X where
    X: "snd (CNExtractTags_scan IsNumber (stopWord t) (Cut (seg t) sentence True) (0, [], []))
       = (X, fold present X [])"
     "CNExtractTags IsNumber t sentence topK =
       (topK_of topK (Sort (Reverse Less) (CNExtractTags_weigh (idf t) (fold present X []))), X)"
    by blast
  have ones: "\<forall>(k, v)\<in>set (fold present X []). v = 1"
    by (rule values_fold_present) simp
  then show "\<forall>(k, v)\<in>set (snd (snd (CNExtractTags_scan IsNumber (stopWord t)
        (Cut (seg t) sentence True) (0, [], [])))). v = 1"
    unfolding X(1) by simp
  show "\<forall>s\<in>set (fst (CNExtractTags IsNumber t sentence topK)).
      snd (Frequency (idf t) (text' s)) \<and> weight s = fst (Frequency (idf t) (text' s)) * 1"
  proof
    fix s assume "s \<in> set (fst (CNExtractTags IsNumber t sentence topK))"
    then have "s \<in> set (CNExtractTags_weigh (idf t) (fold present X []))"
      unfolding X(2)
      using set_topK_of[of topK "Sort (Reverse Less) (CNExtractTags_weigh (idf t) (fold present X []))"]
      by (auto simp: set_Sort)
    from in_CNExtractTags_weigh[OF this] obtain v where
      v: "(text' s, v) \<in> set (fold present X [])" "snd (Frequency (idf t) (text' s))"
      "weight s = fst (Frequency (idf t) (text' s)) * v" by blast
    from v(1) ones have "v = 1" by auto
    with v show "snd (Frequency (idf t) (text' s)) \<and> weight s = fst (Frequency (idf t) (text' s)) * 1"
      by simp
  qed
qed

theorem CNExtractTags_presence_weight_witness:
  "count_list (snd (CNExtractTags ascii_digit demo
       (ascii ''quick 12 brown of fox 345 quick 12'') 5)) (ascii ''quick'') = 2
   \<and> (ascii ''quick'', 1) \<in> set (snd (snd (CNExtractTags_scan ascii_digit (stopWord demo)
          (Cut (seg demo) (ascii ''quick 12 brown of fox 345 quick 12'') True) (0, [], []))))
   \<and> fst (CNExtractTags ascii_digit demo (ascii ''quick 12 brown of fox 345 quick 12'') 5) =
       [\<lparr>text' = ascii ''quick'', weight = 2\<rparr>, \<lparr>text' = ascii ''brown'', weight = 3 / 2\<rparr>]
   \<and> weight \<lparr>text' = ascii ''quick'', weight = 2\<rparr> = fst (Frequency (idf demo) (ascii ''quick'')) * 1"
proof -
  let ?s = "ascii ''quick 12 brown of fox 345 quick 12''"
  note p = CNExtractTags_presence_weight[of ascii_digit demo ?s 5]
  have c: "count_list (snd (CNExtractTags ascii_digit demo ?s 5)) (ascii ''quick'') = 2"
    unfolding run_numbers by (simp add: ascii_def)
  have m: "(ascii ''quick'', 1) \<in> set (snd (snd (CNExtractTags_scan ascii_digit (stopWord demo)
          (Cut (seg demo) ?s True) (0, [], []))))"
    unfolding run_numbers_scan by simp
  have q: "\<lparr>text' = ascii ''quick'', weight = 2\<rparr> \<in> set (fst (CNExtractTags ascii_digit demo ?s 5))"
    unfolding run_numbers by simp
  from p q have "weight \<lparr>text' = ascii ''quick'', weight = 2\<rparr> =
      fst (Frequency (idf demo) (text' \<lparr>text' = ascii ''quick'', weight = 2\<rparr>)) * 1"
    by blast
  then have "weight \<lparr>text' = ascii ''quick'', weight = 2\<rparr> =
      fst (Frequency (idf demo) (ascii ''quick'')) * 1" by simp
  with c m show ?thesis by (simp only: run_numbers fst_conv simp_thms)
qed

text \<open>
  Claim C6. In \<^verbatim>\<open>ExtractTags\<close>, when at least one token survives, the third loop
  replaces every accumulated count (the number of occurrences of the token among the
  survivors) by the count divided by the sum of all counts; these normalized frequencies
  sum to 1; and the weight of every returned segment is the IDF value of its text, or the
  median when the table does not know the text, times the normalized frequency of the
  text. In the real numbers the sum is exactly 1. For the floating-point reading: when
  every quotient is rounded by any function \<open>rnd\<close> of relative error at most \<open>u\<close>
  (the counts and their sum are small integers, which \<^verbatim>\<open>float64\<close> holds exactly), the
  sum of the rounded quotients is within \<open>u\<close> of 1.
\<close>

theorem ExtractTags_normalized_frequencies:
  fixes t :: TagExtracter and sentence :: gostring and topK :: int
  defines "freqMap \<equiv> ExtractTags_count (stopWord t) (Cut (seg t) sentence True) []"
  assumes surviving: "\<exists>w\<in>set (Cut (seg t) sentence True).
     \<not> RuneCountInString (TrimSpace w) < 2 \<and> \<not> IsStopWord (stopWord t) (TrimSpace w)"
  shows "\<exists>normalized tags.
     ExtractTags_normalize (ExtractTags_total freqMap 0) freqMap = Inr normalized \<and>
     map fst normalized = map fst freqMap \<and>
     (\<forall>(k, v)\<in>set normalized. \<exists>c. (k, c) \<in> set freqMap \<and> v = c / sum_list (map snd freqMap)) \<and>
     (\<forall>(k, c)\<in>set freqMap.
        c = real (count_list (survivors (stopWord t) (Cut (seg t) sentence True)) k)) \<and>
     sum_list (map snd normalized) = 1 \<and>
     (\<forall>rnd u. (\<forall>x. \<bar>rnd x - x\<bar> \<le> u * \<bar>x\<bar>) \<longrightarrow>
        \<bar>sum_list (map (\<lambda>(k, c). rnd (c / ExtractTags_total freqMap 0)) freqMap) - 1\<bar> \<le> u) \<and>
     ExtractTags t sentence topK = Inr tags \<and>
     (\<forall>s\<in>set tags. \<exists>v. (text' s, v) \<in> set normalized \<and>
        weight s = (if snd (Frequency (idf t) (text' s)) then fst (Frequency (idf t) (text' s))
                    else median (idf t)) * v)"
proof -
  define S where "S = survivors (stopWord t) (Cut (seg t) sentence True)"
  define n where "n = real (length S)"
  define normalized where "normalized = map (\<lambda>(k, v). (k, v / n)) freqMap"
  have fm: "freqMap = fold counted S []"
    unfolding freqMap_def S_def by (rule ExtractTags_count_fold)
  have "S \<noteq> []"
    using surviving unfolding S_def survivors_empty_iff by auto
  then have n0: "n \<noteq> 0" and npos: "0 < n" unfolding n_def by simp_all
  have total: "ExtractTags_total freqMap 0 = n"
    unfolding fm n_def by (simp add: ExtractTags_total_sum sum_fold_counted)
  have sum: "sum_list (map snd freqMap) = n"
    unfolding fm n_def by (simp add: sum_fold_counted)
  have 1: "ExtractTags_normalize (ExtractTags_total freqMap 0) freqMap = Inr normalized"
    unfolding total normalized_def using n0 by (rule ExtractTags_normalize_map)
  have 2: "map fst normalized = map fst freqMap"
    unfolding normalized_def by (simp add: case_prod_unfold comp_def)
  have 3: "\<forall>(k, v)\<in>set normalized. \<exists>c. (k, c) \<in> set freqMap \<and> v = c / sum_list (map snd freqMap)"
    unfolding sum normalized_def by auto
  have 4: "\<forall>(k, c)\<in>set freqMap. c = real (count_list S k)"
    unfolding fm using count_fold_counted by auto
  then have pos: "\<forall>(k, c)\<in>set freqMap. 0 \<le> c" by auto
  have 5: "sum_list (map snd normalized) = 1"
    unfolding normalized_def sum_list_divide sum using n0 by simp
  have 6: "\<forall>rnd u. (\<forall>x. \<bar>rnd x - x\<bar> \<le> u * \<bar>x\<bar>) \<longrightarrow>
        \<bar>sum_list (map (\<lambda>(k, c). rnd (c / ExtractTags_total freqMap 0)) freqMap) - 1\<bar> \<le> u"
    unfolding total using rounded_frequencies[OF _ pos sum npos] by blast
  define ws where "ws = Sort (Reverse Less) (ExtractTags_weigh (idf t) normalized)"
  have 7: "ExtractTags t sentence topK = Inr (topK_of topK ws)"
    unfolding ws_def normalized_def fm n_def S_def by (rule ExtractTags_eq)
  have 8: "\<forall>s\<in>set (topK_of topK ws). \<exists>v. (text' s, v) \<in> set normalized \<and>
        weight s = (if snd (Frequency (idf t) (text' s)) then fst (Frequency (idf t) (text' s))
                    else median (idf t)) * v"
  proof
    fix s assume "s \<in> set (topK_of topK ws)"
    then have "s \<in> set (ExtractTags_weigh (idf t) normalized)"
      using set_topK_of[of topK ws] unfolding ws_def by (auto simp: set_Sort)
    then show "\<exists>v. (text' s, v) \<in> set normalized \<and>
        weight s = (if snd (Frequency (idf t) (text' s)) then fst (Frequency (idf t) (text' s))
                    else median (idf t)) * v"
      by (rule in_ExtractTags_weigh)
  qed
  from 1 2 3 4 5 6 7 8 show ?thesis unfolding S_def by blast
qed

theorem ExtractTags_normalized_frequencies_witness:
  "\<exists>normalized tags.
     ExtractTags_normalize
       (ExtractTags_total (ExtractTags_count (stopWord demo)
          (Cut (seg demo) (ascii ''the quick brown fox the quick brown fox'') True) []) 0)
       (ExtractTags_count (stopWord demo)
          (Cut (seg demo) (ascii ''the quick brown fox the quick brown fox'') True) [])
       = Inr normalized \<and>
     normalized = [(ascii ''the'', 1 / 4), (ascii ''quick'', 1 / 4), (ascii ''brown'', 1 / 4),
                   (ascii ''fox'', 1 / 4)] \<and>
     sum_list (map snd normalized) = 1 \<and>
     ExtractTags demo (ascii ''the quick brown fox the quick brown fox'') (- 1) = Inr tags \<and>
     tags = [\<lparr>text' = ascii ''quick'', weight = 1 / 2\<rparr>, \<lparr>text' = ascii ''brown'', weight = 3 / 8\<rparr>,
             \<lparr>text' = ascii ''the'', weight = 1 / 4\<rparr>, \<lparr>text' = ascii ''fox'', weight = 1 / 4\<rparr>]"
proof -
  let ?s = "ascii ''the quick brown fox the quick brown fox''"
  let ?fm = "ExtractTags_count (stopWord demo) (Cut (seg demo) ?s True) []"
  have h: "\<exists>w\<in>set (Cut (seg demo) ?s True).
     \<not> RuneCountInString (TrimSpace w) < 2 \<and> \<not> IsStopWord (stopWord demo) (TrimSpace w)"
    by (simp add: run_simps)
  have r1: "ExtractTags_normalize (ExtractTags_total ?fm 0) ?fm =
     Inr [(ascii ''the'', 1 / 4), (ascii ''quick'', 1 / 4), (ascii ''brown'', 1 / 4),
          (ascii ''fox'', 1 / 4)]"
    by (simp add: run_simps)
  have r2: "ExtractTags demo ?s (- 1) =
     Inr [\<lparr>text' = ascii ''quick'', weight = 1 / 2\<rparr>, \<lparr>text' = ascii ''brown'', weight = 3 / 8\<rparr>,
          \<lparr>text' = ascii ''the'', weight = 1 / 4\<rparr>, \<lparr>text' = ascii ''fox'', weight = 1 / 4\<rparr>]"
    by (simp add: run_simps)
  from ExtractTags_normalized_frequencies[where t = demo and sentence = ?s and topK = "- 1", OF h]
  obtain normalized tags where
    p: "ExtractTags_normalize (ExtractTags_total ?fm 0) ?fm = Inr normalized"
       "sum_list (map snd normalized) = 1"
       "ExtractTags demo ?s (- 1) = Inr tags"
    by blast
  from p(1) r1 have n: "normalized = [(ascii ''the'', 1 / 4), (ascii ''quick'', 1 / 4),
      (ascii ''brown'', 1 / 4), (ascii ''fox'', 1 / 4)]" by simp
  from p(3) r2 have t: "tags = [\<lparr>text' = ascii ''quick'', weight = 1 / 2\<rparr>,
      \<lparr>text' = ascii ''brown'', weight = 3 / 8\<rparr>, \<lparr>text' = ascii ''the'', weight = 1 / 4\<rparr>,
      \<lparr>text' = ascii ''fox'', weight = 1 / 4\<rparr>]" by simp
  from p n t show ?thesis by blast
qed

text \<open>
  Claim C7. When every token of the sentence is filtered out (its trimmed form is shorter
  than two runes or is a stop word; the empty sentence included), \<^verbatim>\<open>ExtractTags\<close>
  returns the empty collection: the frequency map is empty, so the normalising loop
  divides nothing, although the total is zero. And no input at all makes the model reach a
  division by zero.
\<close>

theorem ExtractTags_all_filtered:
  "(\<exists>tags. ExtractTags t sentence topK = Inr tags) \<and>
   ((\<forall>w\<in>set (Cut (seg t) sentence True).
        RuneCountInString (TrimSpace w) < 2 \<or> IsStopWord (stopWord t) (TrimSpace w)) \<longrightarrow>
    ExtractTags_count (stopWord t) (Cut (seg t) sentence True) [] = [] \<and>
    ExtractTags t sentence topK = Inr [])"
proof (intro conjI impI)
  show "\<exists>tags. ExtractTags t sentence topK = Inr tags"
    by (simp add: ExtractTags_eq)
next
  assume "\<forall>w\<in>set (Cut (seg t) sentence True).
        RuneCountInString (TrimSpace w) < 2 \<or> IsStopWord (stopWord t) (TrimSpace w)"
  then have e: "survivors (stopWord t) (Cut (seg t) sentence True) = []"
    by (simp only: survivors_empty_iff)
  show "ExtractTags_count (stopWord t) (Cut (seg t) sentence True) [] = []"
    by (simp add: ExtractTags_count_fold e)
  show "ExtractTags t sentence topK = Inr []"
    by (simp add: ExtractTags_eq e topK_of_def Len_def)
qed

theorem ExtractTags_all_filtered_witness:
  "Cut (seg demo) (ascii ''of a of'') True = [ascii ''of'', [32], ascii ''a'', [32], ascii ''of'']
   \<and> ExtractTags demo (ascii ''of a of'') 5 = Inr []
   \<and> ExtractTags demo [] 5 = Inr []"
proof -
  have h1: "\<forall>w\<in>set (Cut (seg demo) (ascii ''of a of'') True).
        RuneCountInString (TrimSpace w) < 2 \<or> IsStopWord (stopWord demo) (TrimSpace w)"
    by (simp add: run_simps)
  have h2: "\<forall>w\<in>set (Cut (seg demo) [] True).
        RuneCountInString (TrimSpace w) < 2 \<or> IsStopWord (stopWord demo) (TrimSpace w)"
    by (simp add: run_simps)
  have "Cut (seg demo) (ascii ''of a of'') True =
      [ascii ''of'', [32], ascii ''a'', [32], ascii ''of'']"
    by (simp add: run_simps)
  moreover from ExtractTags_all_filtered[of demo "ascii ''of a of''" 5] h1
  have "ExtractTags demo (ascii ''of a of'') 5 = Inr []" by blast
  moreover from ExtractTags_all_filtered[of demo "[]" 5] h2
  have "ExtractTags demo [] 5 = Inr []" by blast
  ultimately show ?thesis by blast
qed

text \<open>
  Claim C8. Every text in the output of \<^verbatim>\<open>ExtractTags\<close>, and every text and every word
  in the output of \<^verbatim>\<open>CNExtractTags\<close>, is a trimmed token of at least two runes that the
  stop-word table does not report. So a token whose trimmed form is shorter than two runes,
  or is reported by the stop-word table, never appears in either output.
\<close>

theorem short_tokens_and_stop_words_excluded:
  "(\<exists>tags. ExtractTags t sentence topK = Inr tags \<and>
      (\<forall>x\<in>text' ` set tags.
         \<not> RuneCountInString (TrimSpace x) < 2 \<and> \<not> IsStopWord (stopWord t) (TrimSpace x)
         \<and> TrimSpace x = x)) \<and>
   (\<forall>x\<in>text' ` set (fst (CNExtractTags IsNumber t sentence topK))
        \<union> set (snd (CNExtractTags IsNumber t sentence topK)).
         \<not> RuneCountInString (TrimSpace x) < 2 \<and> \<not> IsStopWord (stopWord t) (TrimSpace x)
         \<and> TrimSpace x = x)"
proof
  note c = ExtractTags_collection[of t sentence]
  define ws where "ws = Sort (Reverse Less) (ExtractTags_weigh (idf t)
       (map (\<lambda>(k, v). (k, v / real (length (survivors (stopWord t) (Cut (seg t) sentence True)))))
          (fold counted (survivors (stopWord t) (Cut (seg t) sentence True)) [])))"
  have e: "ExtractTags t sentence topK = Inr (topK_of topK ws)"
    unfolding ws_def by (rule c(1))
  have "text' ` set (topK_of topK ws) \<subseteq> set (survivors (stopWord t) (Cut (seg t) sentence True))"
    using set_topK_of[of topK ws] c(3) unfolding ws_def by blast
  then show "\<exists>tags. ExtractTags t sentence topK = Inr tags \<and>
      (\<forall>x\<in>text' ` set tags.
         \<not> RuneCountInString (TrimSpace x) < 2 \<and> \<not> IsStopWord (stopWord t) (TrimSpace x)
         \<and> TrimSpace x = x)"
    unfolding e using survivor_props[of _ "stopWord t" "Cut (seg t) sentence True"] by blast
next
  from CNExtractTags_collection[of t sentence IsNumber topK] obtain X where
    X: "set X \<subseteq> set (survivors (stopWord t) (Cut (seg t) sentence True))"
       "CNExtractTags IsNumber t sentence topK =
       (topK_of topK (Sort (Reverse Less) (CNExtractTags_weigh (idf t) (fold present X []))), X)"
    by blast
  have "text' ` set (fst (CNExtractTags IsNumber t sentence topK))
        \<union> set (snd (CNExtractTags IsNumber t sentence topK))
        \<subseteq> set (survivors (stopWord t) (Cut (seg t) sentence True))"
    unfolding X(2) using X(1) text_topK_CN[of topK "idf t" X] by auto
  then show "\<forall>x\<in>text' ` set (fst (CNExtractTags IsNumber t sentence topK))
        \<union> set (snd (CNExtractTags IsNumber t sentence topK)).
         \<not> RuneCountInString (TrimSpace x) < 2 \<and> \<not> IsStopWord (stopWord t) (TrimSpace x)
         \<and> TrimSpace x = x"
    using survivor_props[of _ "stopWord t" "Cut (seg t) sentence True"] by blast
qed

theorem short_tokens_and_stop_words_excluded_witness:
  "ExtractTags demo (ascii ''of a quick of'') 5 = Inr [\<lparr>text' = ascii ''quick'', weight = 2\<rparr>]
   \<and> CNExtractTags ascii_digit demo (ascii ''of a quick of'') 5 =
       ([\<lparr>text' = ascii ''quick'', weight = 2\<rparr>], [ascii ''quick''])
   \<and> \<not> RuneCountInString (TrimSpace (ascii ''quick'')) < 2
   \<and> \<not> IsStopWord (stopWord demo) (TrimSpace (ascii ''quick''))
   \<and> IsStopWord (stopWord demo) (TrimSpace (ascii ''of''))
   \<and> RuneCountInString (TrimSpace (ascii ''a'')) < 2"
proof -
  let ?s = "ascii ''of a quick of''"
  have e: "ExtractTags demo ?s 5 = Inr [\<lparr>text' = ascii ''quick'', weight = 2\<rparr>]"
    by (simp add: run_simps)
  have c: "CNExtractTags ascii_digit demo ?s 5 =
       ([\<lparr>text' = ascii ''quick'', weight = 2\<rparr>], [ascii ''quick''])"
    by (simp add: run_simps)
  have o: "IsStopWord (stopWord demo) (TrimSpace (ascii ''of''))"
    and a: "RuneCountInString (TrimSpace (ascii ''a'')) < 2"
    by (simp_all add: run_simps)
  have "ascii ''quick'' \<in> text' ` set (fst (CNExtractTags ascii_digit demo ?s 5))
        \<union> set (snd (CNExtractTags ascii_digit demo ?s 5))"
    unfolding c by simp
  with short_tokens_and_stop_words_excluded[of demo ?s 5 ascii_digit]
  have "\<not> RuneCountInString (TrimSpace (ascii ''quick'')) < 2
      \<and> \<not> IsStopWord (stopWord demo) (TrimSpace (ascii ''quick''))"
    by blast
  with e c o a show ?thesis by blast
qed

text \<open>
  Claim C9. The words that \<^verbatim>\<open>CNExtractTags\<close> returns are the trimmed tokens that pass
  the length, stop-word and digit filters, every occurrence, in the order of the token
  stream: the sequence is not deduplicated and can hold a token twice. The returned
  collection holds each text at most once. (The hypothesis on the length keeps the 64-bit
  counter of numeric tokens from wrapping around.)
\<close>

theorem token_sequence_and_collection:
  "(length (Cut (seg t) sentence True) < 2 ^ 63 \<longrightarrow>
      snd (CNExtractTags IsNumber t sentence topK) =
        filter (\<lambda>w. \<not> RuneCountInString w < 2 \<and> \<not> IsStopWord (stopWord t) w
                     \<and> \<not> isDigit IsNumber w)
          (map TrimSpace (Cut (seg t) sentence True)))
   \<and> distinct (map text' (fst (CNExtractTags IsNumber t sentence topK)))
   \<and> (\<exists>N' t' sentence' topK'. \<not> distinct (snd (CNExtractTags N' t' sentence' topK')))"
proof (intro conjI impI)
  assume b: "length (Cut (seg t) sentence True) < 2 ^ 63"
  show "snd (CNExtractTags IsNumber t sentence topK) =
        filter (\<lambda>w. \<not> RuneCountInString w < 2 \<and> \<not> IsStopWord (stopWord t) w
                     \<and> \<not> isDigit IsNumber w)
          (map TrimSpace (Cut (seg t) sentence True))"
    unfolding CNExtractTags_collection_kept(2)[OF b]
    by (simp add: kept_def survivors_def conj_commute conj_left_commute)
next
  from CNExtractTags_collection[of t sentence IsNumber topK] obtain X where
    X: "CNExtractTags IsNumber t sentence topK =
       (topK_of topK (Sort (Reverse Less) (CNExtractTags_weigh (idf t) (fold present X []))), X)"
    by blast
  have "distinct (map fst (fold present X []))"
    by (rule distinct_fold_present) simp
  then have "distinct (map text' (Sort (Reverse Less) (CNExtractTags_weigh (idf t) (fold present X []))))"
    by (simp only: distinct_text_Sort distinct_CNExtractTags_weigh)
  then show "distinct (map text' (fst (CNExtractTags IsNumber t sentence topK)))"
    unfolding X by (simp add: topK_of_def distinct_map distinct_take inj_on_def)
       (metis in_set_takeD)
next
  have "\<not> distinct (snd (CNExtractTags ascii_digit demo
           (ascii ''quick 12 brown of fox 345 quick 12'') 5))"
    unfolding run_numbers by simp
  then show "\<exists>N' t' sentence' topK'. \<not> distinct (snd (CNExtractTags N' t' sentence' topK'))"
    by blast
qed

theorem token_sequence_and_collection_witness:
  "snd (CNExtractTags ascii_digit demo (ascii ''quick 12 brown of fox 345 quick 12'') 5) =
     [ascii ''quick'', ascii ''brown'', ascii ''fox'', ascii ''quick'']
   \<and> \<not> distinct (snd (CNExtractTags ascii_digit demo
          (ascii ''quick 12 brown of fox 345 quick 12'') 5))
   \<and> distinct (map text' (fst (CNExtractTags ascii_digit demo
          (ascii ''quick 12 brown of fox 345 quick 12'') 5)))"
proof -
  let ?s = "ascii ''quick 12 brown of fox 345 quick 12''"
  have b: "length (Cut (seg demo) ?s True) < 2 ^ 63"
    by (simp add: run_simps)
  have f: "filter (\<lambda>w. \<not> RuneCountInString w < 2 \<and> \<not> IsStopWord (stopWord demo) w
                     \<and> \<not> isDigit ascii_digit w)
          (map TrimSpace (Cut (seg demo) ?s True)) =
     [ascii ''quick'', ascii ''brown'', ascii ''fox'', ascii ''quick'']"
    by (simp add: run_simps)
  note t = token_sequence_and_collection[of demo ?s ascii_digit 5]
  from t b have w: "snd (CNExtractTags ascii_digit demo ?s 5) =
     [ascii ''quick'', ascii ''brown'', ascii ''fox'', ascii ''quick'']"
    unfolding f by blast
  have "\<not> distinct [ascii ''quick'', ascii ''brown'', ascii ''fox'', ascii ''quick'']"
    by simp
  with w t show ?thesis by simp
qed

end
